theory Spec2Isabelle
  imports Main "HOL-Library.Sublist"
begin

section \<open>Strings\<close>

text \<open>
  Python strings are modelled as \<^typ>\<open>string\<close>, a list of 8-bit characters (the code points
  below 256). The library functions of \<^verbatim>\<open>str\<close> that \<^verbatim>\<open>kmt_sracper.py\<close> calls are
  written out below.
\<close>

text \<open>
  \<^verbatim>\<open>s.split(sep)\<close> for a non-empty separator \<open>sep = c # cs\<close>: the string is cut at the
  leftmost occurrences of the separator, scanning left to right without overlap, and empty
  parts are kept. The source calls it with the literals \<^verbatim>\<open>">"\<close>, \<^verbatim>\<open>">>"\<close> and
  \<^verbatim>\<open>"."\<close> only, so the separator is never empty.
\<close>

function split_on :: "char \<Rightarrow> string \<Rightarrow> string \<Rightarrow> string list" where
  "split_on c cs [] = [[]]"
| "split_on c cs (x # xs) =
     (if x = c \<and> prefix cs xs then [] # split_on c cs (drop (length cs) xs)
      else (case split_on c cs xs of
              [] \<Rightarrow> [[x]]
            | p # ps \<Rightarrow> (x # p) # ps))"
  by pat_completeness auto
termination
  by (relation "measure (\<lambda>(c, cs, s). length s)") auto

text \<open>\<^verbatim>\<open>[s for s in field.split(".") if s]\<close>, lines 74 to 76.\<close>

definition split_fragments :: "string \<Rightarrow> string list" where
  "split_fragments field = filter (\<lambda>s. s \<noteq> []) (split_on CHR ''.'' [] field)"

section \<open>SMILES parsing\<close>

text \<open>The dictionary returned by \<^verbatim>\<open>_parse_smiles_string\<close> has exactly three keys.\<close>

record parsed =
  reactants :: "string list"
  reagents :: "string list"
  products :: "string list"

text \<open>Lines 73 to 77: the three fields of \<open>parts\<close>, each split into fragments.\<close>

definition fields_of :: "string list \<Rightarrow> parsed" where
  "fields_of parts =
     \<lparr>reactants = split_fragments (parts ! 0),
      reagents = split_fragments (parts ! 1),
      products = split_fragments (parts ! 2)\<rparr>"

text \<open>
  \<^verbatim>\<open>KMTScraper._parse_smiles_string\<close>, lines 61 to 77. \<open>None\<close> is Python's \<^verbatim>\<open>None\<close>.
  \<open>fields_of\<close> is reached with a list of at least three parts on both paths, so every index
  it reads is in range.
\<close>

definition parse_smiles_string :: "string \<Rightarrow> parsed option" where
  "parse_smiles_string smiles =
     (if smiles = [] then None
      else
        let parts = split_on CHR ''>'' [] smiles in
        if length parts < 3 then
          (let parts2 = split_on CHR ''>'' ''>'' smiles in
           if length parts2 = 2 then Some (fields_of [parts2 ! 0, [], parts2 ! 1])
           else None)
        else Some (fields_of parts))"

text \<open>
  \<^verbatim>\<open>sep.join(parts)\<close>. The source does not call it; it states below that
  \<open>split_on\<close> loses nothing of the string it cuts.
\<close>

fun str_join :: "string \<Rightarrow> string list \<Rightarrow> string" where
  "str_join sep [] = []"
| "str_join sep [p] = p"
| "str_join sep (p # q # ps) = p @ sep @ str_join sep (q # ps)"

section \<open>More of Python's strings\<close>

text \<open>
  \<^verbatim>\<open>str.isspace\<close> on one character, for the code points below 256: tab, line feed,
  vertical tab, form feed, carriage return, the four separators 0x1C to 0x1F, space,
  next line (0x85) and no-break space (0xA0).
\<close>

definition isspace :: "char \<Rightarrow> bool" where
  "isspace c \<longleftrightarrow>
     c \<in> set [CHR 0x09, CHR 0x0A, CHR 0x0B, CHR 0x0C, CHR 0x0D, CHR 0x1C, CHR 0x1D,
              CHR 0x1E, CHR 0x1F, CHR 0x20, CHR 0x85, CHR 0xA0]"

text \<open>\<^verbatim>\<open>s.strip()\<close>: leading and trailing whitespace removed.\<close>

definition strip :: "string \<Rightarrow> string" where
  "strip s = rev (dropWhile isspace (rev (dropWhile isspace s)))"

text \<open>
  \<^verbatim>\<open>s.lower()\<close>, for the code points below 256: the letters A to Z and the capital
  letters of Latin-1 (0xC0 to 0xDE without the multiplication sign 0xD7) move up by 32.
\<close>

definition lower_char :: "char \<Rightarrow> char" where
  "lower_char c =
     (let n = (of_char c :: nat) in
      if (65 \<le> n \<and> n \<le> 90) \<or> (192 \<le> n \<and> n \<le> 222 \<and> n \<noteq> 215)
      then char_of (n + 32) else c)"

definition str_lower :: "string \<Rightarrow> string" where
  "str_lower s = map lower_char s"

text \<open>\<^verbatim>\<open>sub in s\<close> on strings: \<open>sub\<close> occurs in \<open>s\<close> as a substring.\<close>

fun contains :: "string \<Rightarrow> string \<Rightarrow> bool" where
  "contains sub [] = (sub = [])"
| "contains sub (x # xs) = (prefix sub (x # xs) \<or> contains sub xs)"

text \<open>
  The class \<^verbatim>\<open>\\d\<close> of \<^verbatim>\<open>re\<close>: below code point 256 the decimal digits are
  0 to 9.
\<close>

definition is_digit :: "char \<Rightarrow> bool" where
  "is_digit c \<longleftrightarrow> c \<in> set ''0123456789''"

text \<open>\<^verbatim>\<open>int(ds)\<close> on a string of decimal digits (leading zeros allowed).\<close>

definition int_of_digits :: "string \<Rightarrow> nat" where
  "int_of_digits ds = foldl (\<lambda>n d. 10 * n + (of_char d - 48)) 0 ds"

text \<open>\<^verbatim>\<open>str(n)\<close> on a non-negative integer, as the f-string of line 47 formats it.\<close>

function str_of_nat :: "nat \<Rightarrow> string" where
  "str_of_nat n =
     (if n < 10 then [char_of (48 + n)]
      else str_of_nat (n div 10) @ [char_of (48 + n mod 10)])"
  by pat_completeness auto
termination
  by (relation "measure (\<lambda>n. n)") auto

section \<open>The collaborators\<close>

text \<open>
  What the source reads of a \<^verbatim>\<open>BeautifulSoup\<close> document, each list in document order:
  \<^item> \<open>data_attrs\<close>: for every element, \<^verbatim>\<open>el.get("data-reaction-smiles")\<close>
    (\<open>None\<close> when the element does not carry the attribute);
  \<^item> \<open>anchors\<close>: for every \<^verbatim>\<open>a\<close> element, \<^verbatim>\<open>get_text(strip=True)\<close> and
    \<^verbatim>\<open>get("href")\<close>;
  \<^item> \<open>tables\<close>: for every \<^verbatim>\<open>table\<close>, for every \<^verbatim>\<open>tr\<close> found in it, for every
    \<^verbatim>\<open>td\<close> or \<^verbatim>\<open>th\<close> found in the row, \<^verbatim>\<open>get_text(strip=True)\<close>.
\<close>

record document =
  data_attrs :: "string option list"
  anchors :: "(string \<times> string option) list"
  tables :: "string list list list"

text \<open>
  Everything outside the scraper:
  \<^item> \<open>fetch k url\<close>: the text of the response to \<^verbatim>\<open>session.get(url)\<close>, the request
    that follows \<open>k\<close> answered ones; \<open>None\<close> when \<^verbatim>\<open>requests.RequestException\<close>
    is raised (by the request or by \<^verbatim>\<open>raise_for_status\<close>);
  \<^item> \<open>soup_of html\<close>: \<^verbatim>\<open>BeautifulSoup(html, "html.parser")\<close>;
  \<^item> \<open>re_findall i html\<close>: \<^verbatim>\<open>re.findall(patterns[i], html)\<close> for the three patterns
    of lines 90 to 94;
  \<^item> \<open>set_order xs\<close>: the order in which Python iterates over the set built by adding
    the strings \<open>xs\<close> one after the other;
  \<^item> \<open>clock k\<close>: \<^verbatim>\<open>datetime.now().isoformat()\<close> while page \<open>k\<close> is processed.
\<close>

record env =
  fetch :: "nat \<Rightarrow> string \<Rightarrow> string option"
  soup_of :: "string \<Rightarrow> document"
  re_findall :: "nat \<Rightarrow> string \<Rightarrow> string list"
  set_order :: "string list \<Rightarrow> string list"
  clock :: "nat \<Rightarrow> string"

section \<open>Extraction\<close>

text \<open>
  \<^verbatim>\<open>KMTScraper._extract_from_data_attributes\<close>, lines 82 to 87:
  \<^verbatim>\<open>find_all(attrs={"data-reaction-smiles": True})\<close> keeps the elements that carry the
  attribute, the condition of the comprehension keeps the values that are not the
  empty string, and the values kept are stripped.
\<close>

definition find_all_data_attrs :: "document \<Rightarrow> string list" where
  "find_all_data_attrs soup =
     concat (map (\<lambda>a. case a of None \<Rightarrow> [] | Some v \<Rightarrow> [v]) (data_attrs soup))"

definition extract_from_data_attributes :: "document \<Rightarrow> string list" where
  "extract_from_data_attributes soup =
     map strip (filter (\<lambda>v. v \<noteq> []) (find_all_data_attrs soup))"

text \<open>\<^verbatim>\<open>KMTScraper._extract_from_javascript\<close>, lines 89 to 100.\<close>

definition extract_from_javascript :: "env \<Rightarrow> string \<Rightarrow> string list" where
  "extract_from_javascript e html =
     concat (map (\<lambda>i. filter (\<lambda>m. CHR ''>'' \<in> set m) (re_findall e i html)) [0, 1, 2])"

text \<open>
  The character class of line 109, and \<^verbatim>\<open>re.match\<close> of the pattern built from it: one
  or more characters of the class up to the end of the text, where \<^verbatim>\<open>$\<close> also matches
  before a line feed that ends the text.
\<close>

definition smiles_char :: "char \<Rightarrow> bool" where
  "smiles_char c \<longleftrightarrow>
     (let n = (of_char c :: nat) in
      (65 \<le> n \<and> n \<le> 90) \<or> (97 \<le> n \<and> n \<le> 122) \<or> (48 \<le> n \<and> n \<le> 57)
      \<or> c \<in> set ''[]()=#@+-/.>'' \<or> c = CHR 0x5C)"

definition re_match_smiles :: "string \<Rightarrow> bool" where
  "re_match_smiles text =
     (let body = (if text \<noteq> [] \<and> last text = CHR 0x0A then butlast text else text)
      in body \<noteq> [] \<and> list_all smiles_char body)"

text \<open>\<^verbatim>\<open>KMTScraper._extract_from_tables\<close>, lines 102 to 111.\<close>

definition extract_from_tables :: "document \<Rightarrow> string list" where
  "extract_from_tables soup =
     filter (\<lambda>text. CHR ''>'' \<in> set text \<and> CHR ''.'' \<in> set text \<and> re_match_smiles text)
       (concat (concat (tables soup)))"

section \<open>Pagination\<close>

definition BASE_URL :: string where
  "BASE_URL = ''https://kmt.vander-lingen.nl''"

text \<open>\<^verbatim>\<open>KMTScraper._build_url\<close>, line 47; \<open>doi\<close> is \<^verbatim>\<open>self.doi\<close>.\<close>

definition build_url :: "string \<Rightarrow> nat \<Rightarrow> string" where
  "build_url doi start = BASE_URL @ ''/data/reaction/doi/'' @ doi @ ''/start/'' @ str_of_nat start"

text \<open>
  \<^verbatim>\<open>re.search(r"/start/(\\d+)", current_url)\<close>, line 122: the leftmost position at which
  \<^verbatim>\<open>/start/\<close> is followed by a digit; the group is the longest run of digits there.
  \<open>None\<close> when there is no match, else the group.
\<close>

fun re_search_start :: "string \<Rightarrow> string option" where
  "re_search_start [] = None"
| "re_search_start (x # xs) =
     (let ds = takeWhile is_digit (drop 7 (x # xs)) in
      if prefix ''/start/'' (x # xs) \<and> ds \<noteq> [] then Some ds else re_search_start xs)"

text \<open>\<^verbatim>\<open>soup.find_all("a", href=True)\<close>: the anchors that carry \<^verbatim>\<open>href\<close>.\<close>

definition find_all_a_href :: "document \<Rightarrow> (string \<times> string) list" where
  "find_all_a_href soup =
     concat (map (\<lambda>(text, h). case h of None \<Rightarrow> [] | Some href \<Rightarrow> [(text, href)]) (anchors soup))"

text \<open>\<^verbatim>\<open>KMTScraper._find_next_page_url\<close>, lines 116 to 126.\<close>

definition find_next_page_url :: "string \<Rightarrow> document \<Rightarrow> string \<Rightarrow> string option" where
  "find_next_page_url doi soup current =
     (case find (\<lambda>(text, href). contains ''next'' (str_lower text)) (find_all_a_href soup) of
        Some (text, href) \<Rightarrow> Some (if prefix ''http'' href then href else BASE_URL @ href)
      | None \<Rightarrow>
          (case re_search_start current of
             Some ds \<Rightarrow> Some (build_url doi (int_of_digits ds + 10))
           | None \<Rightarrow> None))"

section \<open>Page processing\<close>

record reaction_data =
  reaction_smiles :: string
  reactant_smiles :: "string list"
  reagent_smiles :: "string list"
  product_smiles :: "string list"
  source_url :: string
  scraped_at :: string

text \<open>The loop of lines 142 to 154 over the candidates, in the order of iteration.\<close>

fun reactions_of :: "string \<Rightarrow> string \<Rightarrow> string list \<Rightarrow> reaction_data list" where
  "reactions_of url timestamp [] = []"
| "reactions_of url timestamp (smiles # rest) =
     (case parse_smiles_string smiles of
        None \<Rightarrow> reactions_of url timestamp rest
      | Some p \<Rightarrow>
          if products p \<noteq> [] then
            \<lparr>reaction_smiles = smiles, reactant_smiles = reactants p,
             reagent_smiles = reagents p, product_smiles = products p,
             source_url = url, scraped_at = timestamp\<rparr> # reactions_of url timestamp rest
          else reactions_of url timestamp rest)"

text \<open>The set \<^verbatim>\<open>all_smiles\<close> of lines 133 to 137, as the loop iterates over it.\<close>

definition all_smiles :: "env \<Rightarrow> string \<Rightarrow> string list" where
  "all_smiles e html =
     set_order e (extract_from_data_attributes (soup_of e html)
                  @ extract_from_javascript e html
                  @ extract_from_tables (soup_of e html))"

text \<open>\<^verbatim>\<open>KMTScraper._process_page\<close>, lines 131 to 156, for the page of index \<open>k\<close>.\<close>

definition process_page :: "env \<Rightarrow> nat \<Rightarrow> string \<Rightarrow> string \<Rightarrow> reaction_data list" where
  "process_page e k html url = reactions_of url (clock e k) (all_smiles e html)"

section \<open>The crawl\<close>

text \<open>
  Lines 178 to 180: each record of the page is appended to
  \<^verbatim>\<open>self.collected_reactions\<close> unless a record there has its \<^verbatim>\<open>reaction_smiles\<close>.
\<close>

fun collect :: "reaction_data list \<Rightarrow> reaction_data list \<Rightarrow> reaction_data list" where
  "collect collected [] = collected"
| "collect collected (r # rs) =
     collect (if reaction_smiles r \<notin> set (map reaction_smiles collected)
              then collected @ [r] else collected) rs"

text \<open>
  The state of \<^verbatim>\<open>scrape\<close>: its three local variables and
  \<^verbatim>\<open>self.collected_reactions\<close>, and the trace of its calls: \<open>fetch_log\<close> holds
  the URLs given to \<^verbatim>\<open>_fetch_page\<close> and \<open>process_log\<close> the URLs given to
  \<^verbatim>\<open>_process_page\<close>, each with the records the call returned.
\<close>

record crawl_state =
  current_url :: "string option"
  seen_urls :: "string set"
  pages_scraped :: nat
  collected_reactions :: "reaction_data list"
  fetch_log :: "string list"
  process_log :: "(string \<times> reaction_data list) list"

datatype outcome = Break crawl_state | Continue crawl_state

text \<open>
  One run of the loop body, lines 167 to 186, with \<open>url\<close> the current URL. The pause of
  line 186 and the printing change nothing of the state.
\<close>

definition crawl_step :: "env \<Rightarrow> string \<Rightarrow> crawl_state \<Rightarrow> string \<Rightarrow> outcome" where
  "crawl_step e doi st url =
     (if url \<in> seen_urls st then Break st
      else
        let st1 = st\<lparr>seen_urls := insert url (seen_urls st), fetch_log := fetch_log st @ [url]\<rparr>
        in case fetch e (pages_scraped st) url of
             None \<Rightarrow> Break st1
           | Some html \<Rightarrow>
               if html = [] then Break st1
               else
                 let reactions = process_page e (pages_scraped st) html url
                 in Continue (st1\<lparr>collected_reactions := collect (collected_reactions st1) reactions,
                                  current_url := find_next_page_url doi (soup_of e html) url,
                                  pages_scraped := Suc (pages_scraped st1),
                                  process_log := process_log st1 @ [(url, reactions)]\<rparr>))"

text \<open>
  The loop of line 166. \<^verbatim>\<open>current_url\<close> is falsy when it is \<^verbatim>\<open>None\<close> or the empty
  string; \<^verbatim>\<open>max_pages\<close> is any integer.
\<close>

function scrape_loop :: "env \<Rightarrow> string \<Rightarrow> int \<Rightarrow> crawl_state \<Rightarrow> crawl_state" where
  "scrape_loop e doi max_pages st =
     (case current_url st of
        None \<Rightarrow> st
      | Some url \<Rightarrow>
          if url \<noteq> [] \<and> int (pages_scraped st) < max_pages then
            (case crawl_step e doi st url of
               Break st' \<Rightarrow> st'
             | Continue st' \<Rightarrow> scrape_loop e doi max_pages st')
          else st)"
  by pat_completeness auto
termination
proof (relation "measure (\<lambda>(e, doi, max_pages, st). nat (max_pages - int (pages_scraped st)))")
  show "wf (measure (\<lambda>(e, doi, max_pages, st). nat (max_pages - int (pages_scraped st))))"
    by simp
next
  fix e :: env and doi :: string and max_pages :: int and st st' :: crawl_state and url :: string
  assume "url \<noteq> [] \<and> int (pages_scraped st) < max_pages"
    and "crawl_step e doi st url = Continue st'"
  then show "((e, doi, max_pages, st'), (e, doi, max_pages, st))
      \<in> measure (\<lambda>(e, doi, max_pages, st). nat (max_pages - int (pages_scraped st)))"
    by (auto simp: crawl_step_def Let_def split: if_splits option.splits)
qed

text \<open>
  \<^verbatim>\<open>KMTScraper.scrape\<close>, lines 161 to 189, on a scraper whose
  \<^verbatim>\<open>collected_reactions\<close> is \<open>collected\<close> (the empty list after \<^verbatim>\<open>__init__\<close>):
  \<open>scrape_run\<close> is the state in which the loop ends, \<open>scrape\<close> the list returned.
\<close>

definition scrape_run :: "env \<Rightarrow> string \<Rightarrow> reaction_data list \<Rightarrow> int \<Rightarrow> crawl_state" where
  "scrape_run e doi collected max_pages =
     scrape_loop e doi max_pages
       \<lparr>current_url = Some (build_url doi 0), seen_urls = {}, pages_scraped = 0,
        collected_reactions = collected, fetch_log = [], process_log = []\<rparr>"

definition scrape :: "env \<Rightarrow> string \<Rightarrow> reaction_data list \<Rightarrow> int \<Rightarrow> reaction_data list" where
  "scrape e doi collected max_pages = collected_reactions (scrape_run e doi collected max_pages)"

text \<open>
  A fetch collaborator that fails wherever \<open>f\<close> answers with an empty page text and is
  \<open>f\<close> everywhere else.
\<close>

definition empty_as_failure :: "(nat \<Rightarrow> string \<Rightarrow> string option) \<Rightarrow> nat \<Rightarrow> string \<Rightarrow> string option" where
  "empty_as_failure f k url = (if f k url = Some [] then None else f k url)"


text \<open>
  What holds of the trace after every run of the loop body: no URL is fetched twice, the
  visited URLs are the fetched ones, no URL is processed twice, the processed URLs are
  among the fetched ones, and the counter of pages is the number of processed pages and
  stays within \<^verbatim>\<open>max_pages\<close>.
\<close>

definition trace_inv :: "int \<Rightarrow> crawl_state \<Rightarrow> bool" where
  "trace_inv max_pages s \<longleftrightarrow>
     distinct (fetch_log s)
     \<and> seen_urls s = set (fetch_log s)
     \<and> distinct (map fst (process_log s))
     \<and> set (map fst (process_log s)) \<subseteq> set (fetch_log s)
     \<and> length (process_log s) = pages_scraped s
     \<and> int (pages_scraped s) \<le> max 0 max_pages"

text \<open>
  A small world on which the crawl is run below: every page that is fetched carries the
  same four attribute values and one anchor, \<^verbatim>\<open>Next page\<close>, to \<^verbatim>\<open>/2\<close>; the fetch
  collaborator \<open>f\<close> is left open.
\<close>

definition two_pages :: "(nat \<Rightarrow> string \<Rightarrow> string option) \<Rightarrow> env" where
  "two_pages f =
     \<lparr>fetch = f,
      soup_of = (\<lambda>html. \<lparr>data_attrs = [Some ''A.B>>C'', None, Some ''A.B>>'', Some ''  ''],
                          anchors = [(''Next page'', Some ''/2'')],
                          tables = []\<rparr>),
      re_findall = (\<lambda>i html. []),
      set_order = remdups,
      clock = (\<lambda>k. if k = 0 then ''t0'' else ''t1'')\<rparr>"

section \<open>Properties of the string functions\<close>

lemma split_on_not_Nil: "split_on c cs s \<noteq> []"
  by (induction c cs s rule: split_on.induct) (auto split: list.splits)

lemma split_char_Cons_cases:
  obtains q qs where "split_on c cs xs = q # qs"
  using split_on_not_Nil [of c cs xs] by (cases "split_on c cs xs") auto

lemma length_split_char:
  "length (split_on c [] s) = Suc (length (filter (\<lambda>x. x = c) s))"
proof (induction s)
  case Nil
  show ?case by simp
next
  case (Cons x xs)
  obtain q qs where "split_on c [] xs = q # qs" by (rule split_char_Cons_cases)
  with Cons show ?case by auto
qed

lemma split_char_append:
  "split_on c [] (s @ c # t) = split_on c [] s @ split_on c [] t"
proof (induction s)
  case Nil
  show ?case by simp
next
  case (Cons x xs)
  obtain q qs where "split_on c [] xs = q # qs" by (rule split_char_Cons_cases)
  with Cons show ?case by auto
qed

lemma join_split_char: "str_join [c] (split_on c [] s) = s"
proof (induction s)
  case Nil
  show ?case by simp
next
  case (Cons x xs)
  obtain q qs where qs: "split_on c [] xs = q # qs" by (rule split_char_Cons_cases)
  with Cons show ?case by (cases qs) auto
qed

lemma split_char_free: "p \<in> set (split_on c [] s) \<Longrightarrow> c \<notin> set p"
proof (induction s arbitrary: p)
  case Nil
  then show ?case by simp
next
  case (Cons x xs)
  obtain q qs where "split_on c [] xs = q # qs" by (rule split_char_Cons_cases)
  with Cons show ?case by (auto split: if_splits)
qed

lemma concat_split_char: "concat (split_on c [] s) = filter (\<lambda>x. x \<noteq> c) s"
proof (induction s)
  case Nil
  show ?case by simp
next
  case (Cons x xs)
  obtain q qs where "split_on c [] xs = q # qs" by (rule split_char_Cons_cases)
  with Cons show ?case by auto
qed

lemma concat_filter_nonempty: "concat (filter (\<lambda>s. s \<noteq> []) xss) = concat xss"
  by (induction xss) auto

text \<open>Every cut at \<^verbatim>\<open>">>"\<close> uses up two of the \<^verbatim>\<open>">"\<close> characters of the string.\<close>

lemma split_double_count:
  "cs = [c] \<Longrightarrow> 2 * length (split_on c cs s) \<le> Suc (Suc (length (filter (\<lambda>x. x = c) s)))"
proof (induction c cs s rule: split_on.induct)
  case (1 c cs)
  show ?case by simp
next
  case (2 c cs x xs)
  show ?case
  proof (cases "x = c \<and> prefix cs xs")
    case True
    then obtain ys where xs: "xs = c # ys" using 2(3) by (cases xs) auto
    with True 2 show ?thesis by simp
  next
    case False
    obtain q qs where "split_on c cs xs = q # qs" by (rule split_char_Cons_cases)
    with False 2 show ?thesis by auto
  qed
qed

lemma contains_double_count:
  "contains [c, c] s \<Longrightarrow> 2 \<le> length (filter (\<lambda>x. x = c) s)"
proof (induction s)
  case Nil
  then show ?case by simp
next
  case (Cons x xs)
  show ?case
  proof (cases "prefix [c, c] (x # xs)")
    case True
    then obtain ys where "x = c" "xs = c # ys" by (cases xs) auto
    then show ?thesis by simp
  next
    case False
    with Cons show ?thesis by auto
  qed
qed


lemma parse_few_parts:
  "length (split_on CHR ''>'' [] s) < 3 \<Longrightarrow> parse_smiles_string s = None"
  using split_double_count [of "''>''" "CHR ''>''" s]
  by (auto simp: parse_smiles_string_def Let_def length_split_char)

lemma parse_three_parts:
  "3 \<le> length (split_on CHR ''>'' [] s) \<Longrightarrow>
   parse_smiles_string s = Some (fields_of (split_on CHR ''>'' [] s))"
  by (auto simp: parse_smiles_string_def Let_def)

section \<open>The parser\<close>

text \<open>
  C1. A string that \<^verbatim>\<open>split(">")\<close> cuts into three parts or more is parsed: the
  reactants are the fragments of part 0, the reagents those of part 1, the products those
  of part 2. Whatever follows a further \<^verbatim>\<open>">"\<close> is ignored: appending \<^verbatim>\<open>">"\<close> and
  any text to such a string does not change the result. \<^verbatim>\<open>"A.B>C>D"\<close> gives the
  reactants A and B, the reagent C and the product D.
\<close>

theorem parse_three_fields:
  "(3 \<le> length (split_on CHR ''>'' [] s) \<longrightarrow>
      parse_smiles_string s =
        Some \<lparr>reactants = split_fragments (split_on CHR ''>'' [] s ! 0),
              reagents = split_fragments (split_on CHR ''>'' [] s ! 1),
              products = split_fragments (split_on CHR ''>'' [] s ! 2)\<rparr>
      \<and> (\<forall>t. parse_smiles_string (s @ ''>'' @ t) = parse_smiles_string s))
   \<and> parse_smiles_string ''A.B>C>D'' =
       Some \<lparr>reactants = [''A'', ''B''], reagents = [''C''], products = [''D'']\<rparr>"
proof (intro conjI impI allI)
  assume three: "3 \<le> length (split_on CHR ''>'' [] s)"
  then show "parse_smiles_string s =
      Some \<lparr>reactants = split_fragments (split_on CHR ''>'' [] s ! 0),
            reagents = split_fragments (split_on CHR ''>'' [] s ! 1),
            products = split_fragments (split_on CHR ''>'' [] s ! 2)\<rparr>"
    by (simp add: parse_three_parts fields_of_def)
  fix t
  have parts: "split_on CHR ''>'' [] (s @ ''>'' @ t)
      = split_on CHR ''>'' [] s @ split_on CHR ''>'' [] t"
    using split_char_append [of "CHR ''>''" s t] by simp
  with three have "parse_smiles_string (s @ ''>'' @ t)
      = Some (fields_of (split_on CHR ''>'' [] s @ split_on CHR ''>'' [] t))"
    using parse_three_parts [of "s @ ''>'' @ t"] by simp
  also have "fields_of (split_on CHR ''>'' [] s @ split_on CHR ''>'' [] t)
      = fields_of (split_on CHR ''>'' [] s)"
  proof -
    from three have "0 < length (split_on CHR ''>'' [] s)"
      and "1 < length (split_on CHR ''>'' [] s)"
      and "2 < length (split_on CHR ''>'' [] s)"
      by (simp_all add: split_on_not_Nil)
    then show ?thesis by (simp add: fields_of_def nth_append)
  qed
  finally show "parse_smiles_string (s @ ''>'' @ t) = parse_smiles_string s"
    using three by (simp add: parse_three_parts)
next
  show "parse_smiles_string ''A.B>C>D'' =
      Some \<lparr>reactants = [''A'', ''B''], reagents = [''C''], products = [''D'']\<rparr>"
    by (simp add: parse_smiles_string_def fields_of_def split_fragments_def)
qed

theorem parse_three_fields_witness:
  "3 \<le> length (split_on CHR ''>'' [] ''A.B>C>D.E'')
   \<and> parse_smiles_string ''A.B>C>D.E'' =
       Some \<lparr>reactants = [''A'', ''B''], reagents = [''C''], products = [''D'', ''E'']\<rparr>
   \<and> parse_smiles_string ''A.B>C>D.E>F>G'' = parse_smiles_string ''A.B>C>D.E''"
proof -
  have three: "3 \<le> length (split_on CHR ''>'' [] ''A.B>C>D.E'')" by simp
  have "''A.B>C>D.E'' @ ''>'' @ ''F>G'' = ''A.B>C>D.E>F>G''" by simp
  with three parse_three_fields [of "''A.B>C>D.E''"] show ?thesis
    by (simp add: split_fragments_def)
qed



text \<open>
  C5. A field is cut at every \<^verbatim>\<open>"."\<close> and the empty pieces are dropped. The pieces
  are the whole field (joined by \<^verbatim>\<open>"."\<close> they give it back) and hold no dot, so the
  fragments are the non-empty runs between the dots, in order: none is empty, none holds a
  dot, and together they are the field without its dots. \<^verbatim>\<open>"A.B..C"\<close> gives A, B, C;
  the empty string and \<^verbatim>\<open>"."\<close> give no fragment.
\<close>

theorem split_fragments_runs:
  "split_fragments field = filter (\<lambda>s. s \<noteq> []) (split_on CHR ''.'' [] field)
   \<and> str_join ''.'' (split_on CHR ''.'' [] field) = field
   \<and> (\<forall>p \<in> set (split_on CHR ''.'' [] field). CHR ''.'' \<notin> set p)
   \<and> (\<forall>f \<in> set (split_fragments field). f \<noteq> [] \<and> CHR ''.'' \<notin> set f)
   \<and> concat (split_fragments field) = filter (\<lambda>c. c \<noteq> CHR ''.'') field
   \<and> split_fragments ''A.B..C'' = [''A'', ''B'', ''C'']
   \<and> split_fragments [] = []
   \<and> split_fragments ''.'' = []"
proof (intro conjI ballI)
  show "split_fragments field = filter (\<lambda>s. s \<noteq> []) (split_on CHR ''.'' [] field)"
    by (simp add: split_fragments_def)
  show "str_join ''.'' (split_on CHR ''.'' [] field) = field"
    by (rule join_split_char)
  show "CHR ''.'' \<notin> set p" if "p \<in> set (split_on CHR ''.'' [] field)" for p
    using that by (rule split_char_free)
  show "f \<noteq> []" if "f \<in> set (split_fragments field)" for f
    using that by (simp add: split_fragments_def)
  show "CHR ''.'' \<notin> set f" if "f \<in> set (split_fragments field)" for f
    using that split_char_free [of f "CHR ''.''" field] by (simp add: split_fragments_def)
  show "concat (split_fragments field) = filter (\<lambda>c. c \<noteq> CHR ''.'') field"
    by (simp add: split_fragments_def concat_filter_nonempty concat_split_char)
  show "split_fragments ''A.B..C'' = [''A'', ''B'', ''C'']"
    by (simp add: split_fragments_def)
  show "split_fragments [] = []"
    by (simp add: split_fragments_def)
  show "split_fragments ''.'' = []"
    by (simp add: split_fragments_def)
qed

theorem split_fragments_runs_witness:
  "''CC'' \<in> set (split_on CHR ''.'' [] ''.CC..O.'') \<and> CHR ''.'' \<notin> set ''CC''
   \<and> ''O'' \<in> set (split_fragments ''.CC..O.'') \<and> ''O'' \<noteq> [] \<and> CHR ''.'' \<notin> set ''O''
   \<and> split_fragments ''.CC..O.'' = [''CC'', ''O'']"
  using split_fragments_runs [of "''.CC..O.''"] by simp

text \<open>
  C9. The parser succeeds exactly on the strings that \<^verbatim>\<open>split(">")\<close> cuts into three
  parts or more, which are the strings with two \<^verbatim>\<open>">"\<close> characters or more. The
  fallback never succeeds: a string with \<^verbatim>\<open>">>"\<close> in it, and any string that
  \<^verbatim>\<open>split(">>")\<close> cuts into two parts or more, has three parts or more at \<^verbatim>\<open>">"\<close>,
  so a string that reaches the fallback is never cut in two there.
\<close>

theorem parse_succeeds_iff:
  "(parse_smiles_string s \<noteq> None \<longleftrightarrow> 3 \<le> length (split_on CHR ''>'' [] s))
   \<and> (3 \<le> length (split_on CHR ''>'' [] s) \<longleftrightarrow> 2 \<le> length (filter (\<lambda>c. c = CHR ''>'') s))
   \<and> (contains ''>>'' s \<longrightarrow> 3 \<le> length (split_on CHR ''>'' [] s))
   \<and> (2 \<le> length (split_on CHR ''>'' ''>'' s) \<longrightarrow> 3 \<le> length (split_on CHR ''>'' [] s))
   \<and> (length (split_on CHR ''>'' [] s) < 3 \<longrightarrow>
        length (split_on CHR ''>'' ''>'' s) = 1 \<and> parse_smiles_string s = None)"
proof (intro conjI impI)
  show "parse_smiles_string s \<noteq> None \<longleftrightarrow> 3 \<le> length (split_on CHR ''>'' [] s)"
    using parse_few_parts [of s] parse_three_parts [of s] by (cases "3 \<le> length (split_on CHR ''>'' [] s)") auto
  show "3 \<le> length (split_on CHR ''>'' [] s) \<longleftrightarrow> 2 \<le> length (filter (\<lambda>c. c = CHR ''>'') s)"
    by (simp add: length_split_char)
  show "3 \<le> length (split_on CHR ''>'' [] s)" if "contains ''>>'' s"
    using contains_double_count [OF that] by (simp add: length_split_char)
  show "3 \<le> length (split_on CHR ''>'' [] s)" if "2 \<le> length (split_on CHR ''>'' ''>'' s)"
    using that split_double_count [of "''>''" "CHR ''>''" s] by (simp add: length_split_char)
  show "length (split_on CHR ''>'' ''>'' s) = 1" if "length (split_on CHR ''>'' [] s) < 3"
  proof -
    have "length (split_on CHR ''>'' ''>'' s) \<le> 1"
      using that split_double_count [of "''>''" "CHR ''>''" s] by (simp add: length_split_char)
    moreover have "length (split_on CHR ''>'' ''>'' s) \<noteq> 0"
      using split_on_not_Nil [of "CHR ''>''" "''>''" s] by simp
    ultimately show ?thesis by arith
  qed
  show "parse_smiles_string s = None" if "length (split_on CHR ''>'' [] s) < 3"
    using that by (rule parse_few_parts)
qed

theorem parse_succeeds_iff_witness:
  "contains ''>>'' ''CC>>O'' \<and> 2 \<le> length (split_on CHR ''>'' ''>'' ''CC>>O'')
   \<and> 3 \<le> length (split_on CHR ''>'' [] ''CC>>O'') \<and> parse_smiles_string ''CC>>O'' \<noteq> None
   \<and> length (split_on CHR ''>'' [] ''CC>O'') < 3
   \<and> length (split_on CHR ''>'' ''>'' ''CC>O'') = 1 \<and> parse_smiles_string ''CC>O'' = None"
  using parse_succeeds_iff [of "''CC>>O''"] parse_succeeds_iff [of "''CC>O''"] by simp


section \<open>The attribute scan\<close>

lemma strip_decompose:
  "\<exists>l r. v = l @ strip v @ r \<and> list_all isspace l \<and> list_all isspace r"
proof -
  let ?d = "dropWhile isspace v"
  have "v = takeWhile isspace v @ ?d" by simp
  moreover have "?d = strip v @ rev (takeWhile isspace (rev ?d))"
  proof -
    have "rev (takeWhile isspace (rev ?d) @ dropWhile isspace (rev ?d)) = rev (rev ?d)"
      by (simp only: takeWhile_dropWhile_id)
    then have "rev (dropWhile isspace (rev ?d)) @ rev (takeWhile isspace (rev ?d)) = ?d"
      by (simp only: rev_append rev_rev_ident)
    then show ?thesis by (simp add: strip_def)
  qed
  moreover have "list_all isspace (takeWhile isspace v)"
    by (simp add: list_all_iff) (meson set_takeWhileD)
  moreover have "list_all isspace (rev (takeWhile isspace (rev ?d)))"
    by (simp add: list_all_iff) (meson set_takeWhileD)
  ultimately show ?thesis by metis
qed

lemma strip_Nil_iff: "strip v = [] \<longleftrightarrow> list_all isspace v"
proof
  assume "strip v = []"
  then have all: "\<forall>x \<in> set (dropWhile isspace v). isspace x"
    by (simp add: strip_def dropWhile_eq_Nil_conv)
  have "dropWhile isspace v = []"
  proof (rule ccontr)
    assume ne: "dropWhile isspace v \<noteq> []"
    then have "\<not> isspace (hd (dropWhile isspace v))" by (rule hd_dropWhile)
    moreover have "hd (dropWhile isspace v) \<in> set (dropWhile isspace v)"
      using ne by (rule hd_in_set)
    ultimately show False using all by blast
  qed
  then show "list_all isspace v" by (simp add: list_all_iff dropWhile_eq_Nil_conv)
next
  assume "list_all isspace v"
  then show "strip v = []"
    by (auto simp: strip_def list_all_iff dest: set_dropWhileD)
qed

lemma strip_ends:
  assumes "strip v \<noteq> []"
  shows "\<not> isspace (hd (strip v)) \<and> \<not> isspace (last (strip v))"
proof -
  let ?d = "dropWhile isspace v"
  let ?r = "dropWhile isspace (rev ?d)"
  from assms have r: "?r \<noteq> []" by (simp add: strip_def)
  have d: "?d \<noteq> []"
  proof
    assume "?d = []"
    then have "?r = []" by (simp only: rev.simps dropWhile.simps)
    with r show False by contradiction
  qed
  have "last (strip v) = hd ?r" using r by (simp add: strip_def last_rev)
  moreover have "\<not> isspace (hd ?r)" using r by (rule hd_dropWhile)
  moreover have "hd (strip v) = last ?r" using r by (simp add: strip_def hd_rev)
  moreover have "last ?r = last (rev ?d)"
    using r by (metis append_Nil2 last_appendR takeWhile_dropWhile_id)
  moreover have "last (rev ?d) = hd ?d" using d by (simp add: last_rev)
  moreover have "\<not> isspace (hd ?d)" using d by (rule hd_dropWhile)
  ultimately show ?thesis by simp
qed

lemma extract_attrs_concat:
  "extract_from_data_attributes soup =
     concat (map (\<lambda>a. case a of None \<Rightarrow> [] | Some v \<Rightarrow> if v = [] then [] else [strip v])
       (data_attrs soup))"
proof -
  have "map strip (filter (\<lambda>v. v \<noteq> []) (concat (map (\<lambda>a. case a of None \<Rightarrow> [] | Some v \<Rightarrow> [v]) xs)))
      = concat (map (\<lambda>a. case a of None \<Rightarrow> [] | Some v \<Rightarrow> if v = [] then [] else [strip v]) xs)"
    for xs :: "string option list"
    by (induction xs) (auto split: option.splits)
  then show ?thesis
    by (simp add: extract_from_data_attributes_def find_all_data_attrs_def)
qed

lemma set_find_all_data_attrs: "set (find_all_data_attrs soup) = {v. Some v \<in> set (data_attrs soup)}"
  by (auto simp: find_all_data_attrs_def split: option.splits)

text \<open>
  C8, as the code has it. Every element that carries \<^verbatim>\<open>data-reaction-smiles\<close> with
  a value other than the empty string contributes exactly the stripped value, and the other
  elements contribute nothing; the test is made on the value before it is stripped, so a
  value of whitespace only contributes the empty string. The stripped value is the value
  without its leading and trailing whitespace.
\<close>

theorem attribute_scan:
  "extract_from_data_attributes soup =
     concat (map (\<lambda>a. case a of None \<Rightarrow> [] | Some v \<Rightarrow> if v = [] then [] else [strip v])
       (data_attrs soup))
   \<and> set (extract_from_data_attributes soup) = {strip v |v. Some v \<in> set (data_attrs soup) \<and> v \<noteq> []}
   \<and> ([] \<in> set (extract_from_data_attributes soup) \<longleftrightarrow>
        (\<exists>v. Some v \<in> set (data_attrs soup) \<and> v \<noteq> [] \<and> list_all isspace v))
   \<and> (\<exists>l r. v = l @ strip v @ r \<and> list_all isspace l \<and> list_all isspace r)
   \<and> (strip v = [] \<or> (\<not> isspace (hd (strip v)) \<and> \<not> isspace (last (strip v))))"
proof (intro conjI)
  show "extract_from_data_attributes soup =
     concat (map (\<lambda>a. case a of None \<Rightarrow> [] | Some v \<Rightarrow> if v = [] then [] else [strip v])
       (data_attrs soup))"
    by (rule extract_attrs_concat)
  show set_eq: "set (extract_from_data_attributes soup)
      = {strip v |v. Some v \<in> set (data_attrs soup) \<and> v \<noteq> []}"
    by (auto simp: extract_from_data_attributes_def set_find_all_data_attrs)
  show "[] \<in> set (extract_from_data_attributes soup) \<longleftrightarrow>
        (\<exists>v. Some v \<in> set (data_attrs soup) \<and> v \<noteq> [] \<and> list_all isspace v)"
    unfolding set_eq using strip_Nil_iff by (auto; metis)
  show "\<exists>l r. v = l @ strip v @ r \<and> list_all isspace l \<and> list_all isspace r"
    by (rule strip_decompose)
  show "strip v = [] \<or> (\<not> isspace (hd (strip v)) \<and> \<not> isspace (last (strip v)))"
    using strip_ends [of v] by blast
qed

text \<open>
  The claim as stated fails on an element whose value is two spaces: the candidate list is
  not the list of the non-empty stripped values, it holds the empty string.
\<close>

theorem attribute_scan_counterexample:
  "strip ''  '' = []
   \<and> extract_from_data_attributes \<lparr>data_attrs = [Some ''  ''], anchors = [], tables = []\<rparr> = [[]]
   \<and> extract_from_data_attributes \<lparr>data_attrs = [Some ''  ''], anchors = [], tables = []\<rparr>
       \<noteq> filter (\<lambda>v. v \<noteq> [])
           (map strip (find_all_data_attrs \<lparr>data_attrs = [Some ''  ''], anchors = [], tables = []\<rparr>))"
  by (simp add: extract_from_data_attributes_def find_all_data_attrs_def strip_def isspace_def)

theorem attribute_scan_witness:
  "extract_from_data_attributes
     \<lparr>data_attrs = [Some '' CC>>O '', None, Some [], Some ''  ''], anchors = [], tables = []\<rparr>
     = [''CC>>O'', []]
   \<and> strip '' CC>>O '' = ''CC>>O''
   \<and> \<not> isspace (hd (strip '' CC>>O '')) \<and> \<not> isspace (last (strip '' CC>>O ''))"
  using attribute_scan [of "\<lparr>data_attrs = [Some '' CC>>O '', None, Some [], Some ''  ''], anchors = [], tables = []\<rparr>" "'' CC>>O ''"]
  by (simp add: strip_def isspace_def)

section \<open>The next page\<close>

lemma match_start_iff:
  "prefix ''/start/'' t \<and> takeWhile is_digit (drop 7 t) \<noteq> [] \<longleftrightarrow>
   (\<exists>d. is_digit d \<and> prefix (''/start/'' @ [d]) t)"
proof
  assume m: "prefix ''/start/'' t \<and> takeWhile is_digit (drop 7 t) \<noteq> []"
  then obtain r where t: "t = ''/start/'' @ r" by (auto elim: prefixE)
  with m have "takeWhile is_digit r \<noteq> []" by simp
  then obtain d r' where "r = d # r'" "is_digit d"
    by (cases r) (auto split: if_splits)
  with t show "\<exists>d. is_digit d \<and> prefix (''/start/'' @ [d]) t" by auto
next
  assume "\<exists>d. is_digit d \<and> prefix (''/start/'' @ [d]) t"
  then obtain d r where "is_digit d" "t = (''/start/'' @ [d]) @ r" by (auto elim: prefixE)
  then show "prefix ''/start/'' t \<and> takeWhile is_digit (drop 7 t) \<noteq> []" by simp
qed

lemma re_search_start_Cons:
  "re_search_start (x # xs) =
     (if \<exists>d. is_digit d \<and> prefix (''/start/'' @ [d]) (x # xs)
      then Some (takeWhile is_digit (drop 7 (x # xs))) else re_search_start xs)"
  using match_start_iff [of "x # xs"] by (simp only: re_search_start.simps Let_def)

lemma prefix_append_long:
  "length p \<le> length a \<Longrightarrow> prefix p (a @ b) \<longleftrightarrow> prefix p a"
  by (auto simp: prefix_append)

lemma re_search_start_None_iff:
  "re_search_start s = None \<longleftrightarrow> (\<forall>d. is_digit d \<longrightarrow> \<not> contains (''/start/'' @ [d]) s)"
proof (induction s)
  case Nil
  show ?case by simp
next
  case (Cons x xs)
  show ?case
    unfolding re_search_start_Cons contains.simps using Cons by auto
qed

lemma re_search_start_append:
  assumes "re_search_start (pre @ ''/start/'') = None"
    and "ds \<noteq> []" and "list_all is_digit ds" and "post = [] \<or> \<not> is_digit (hd post)"
  shows "re_search_start (pre @ ''/start/'' @ ds @ post) = Some ds"
  using assms(1)
proof (induction pre)
  case Nil
  have "takeWhile is_digit (ds @ post) = ds"
    using assms(3,4) by (cases post) (auto simp: list_all_iff takeWhile_append2)
  with assms(2) show ?case by simp
next
  case (Cons x pre)
  have long: "length (''/start/'' @ [d]) \<le> length ((x # pre) @ ''/start/'')" for d by simp
  have eq: "prefix (''/start/'' @ [d]) ((x # pre) @ ''/start/'' @ ds @ post)
      \<longleftrightarrow> prefix (''/start/'' @ [d]) ((x # pre) @ ''/start/'')" for d
    using prefix_append_long [OF long, of d "ds @ post"] by simp
  from Cons.prems have no: "\<not> (\<exists>d. is_digit d \<and> prefix (''/start/'' @ [d]) ((x # pre) @ ''/start/''))"
    and rest: "re_search_start (pre @ ''/start/'') = None"
    unfolding append_Cons re_search_start_Cons by (auto split: if_splits)
  from no eq have neg: "\<not> (\<exists>d. is_digit d \<and> prefix (''/start/'' @ [d]) (x # (pre @ ''/start/'' @ ds @ post)))"
    by simp
  have "re_search_start (x # (pre @ ''/start/'' @ ds @ post))
      = re_search_start (pre @ ''/start/'' @ ds @ post)"
    by (subst re_search_start_Cons) (simp only: neg if_False)
  with Cons.IH [OF rest] show ?case by (simp only: append_Cons)
qed

lemma re_search_start_Some:
  "re_search_start s = Some ds \<Longrightarrow>
   \<exists>pre post. s = pre @ ''/start/'' @ ds @ post \<and> ds \<noteq> [] \<and> list_all is_digit ds
     \<and> (post = [] \<or> \<not> is_digit (hd post)) \<and> re_search_start (pre @ ''/start/'') = None"
proof (induction s)
  case Nil
  then show ?case by simp
next
  case (Cons x xs)
  show ?case
  proof (cases "prefix ''/start/'' (x # xs) \<and> takeWhile is_digit (drop 7 (x # xs)) \<noteq> []")
    case True
    then obtain r where r: "x # xs = ''/start/'' @ r" by (auto elim: prefixE)
    with True Cons.prems have ds: "ds = takeWhile is_digit r" "ds \<noteq> []"
      by (auto simp: Let_def)
    let ?post = "dropWhile is_digit r"
    have "x # xs = [] @ ''/start/'' @ ds @ ?post" using r ds by simp
    moreover have "list_all is_digit ds"
      using ds by (auto simp: list_all_iff dest: set_takeWhileD)
    moreover have "?post = [] \<or> \<not> is_digit (hd ?post)"
      using hd_dropWhile [of is_digit r] by blast
    moreover have "re_search_start ([] @ ''/start/'') = None" by simp
    ultimately show ?thesis using ds(2) by blast
  next
    case False
    with Cons.prems have "re_search_start xs = Some ds" by (auto simp: Let_def)
    from Cons.IH [OF this] obtain pre post where
      xs: "xs = pre @ ''/start/'' @ ds @ post" and ds: "ds \<noteq> []" "list_all is_digit ds"
      and post: "post = [] \<or> \<not> is_digit (hd post)"
      and none: "re_search_start (pre @ ''/start/'') = None"
      by blast
    have long: "length (''/start/'' @ [d]) \<le> length ((x # pre) @ ''/start/'')" for d by simp
    have eq: "prefix (''/start/'' @ [d]) ((x # pre) @ ''/start/'' @ ds @ post)
        \<longleftrightarrow> prefix (''/start/'' @ [d]) ((x # pre) @ ''/start/'')" for d
      using prefix_append_long [OF long, of d "ds @ post"] by simp
    from False have "\<not> (\<exists>d. is_digit d \<and> prefix (''/start/'' @ [d]) (x # xs))"
      by (simp only: match_start_iff not_False_eq_True)
    with eq xs have "\<not> (\<exists>d. is_digit d \<and> prefix (''/start/'' @ [d]) (x # (pre @ ''/start/'')))"
      by simp
    then have "re_search_start (x # (pre @ ''/start/'')) = re_search_start (pre @ ''/start/'')"
      by (subst re_search_start_Cons) (simp only: if_False)
    with none have "re_search_start ((x # pre) @ ''/start/'') = None"
      by (simp only: append_Cons)
    moreover have "x # xs = (x # pre) @ ''/start/'' @ ds @ post" using xs by simp
    ultimately show ?thesis using ds post by blast
  qed
qed

lemma int_of_digits_snoc:
  "int_of_digits (ds @ [d]) = 10 * int_of_digits ds + (of_char d - 48)"
  by (simp add: int_of_digits_def)

lemma int_of_digits_str_of_nat: "int_of_digits (str_of_nat n) = n"
proof (induction n rule: str_of_nat.induct)
  case (1 n)
  show ?case
  proof (cases "n < 10")
    case True
    then show ?thesis by (simp add: int_of_digits_def)
  next
    case False
    have "n mod 10 < 10" by simp
    then have "(48 + n mod 10) mod 256 = 48 + n mod 10" by simp
    with False 1 show ?thesis
      by (subst str_of_nat.simps) (simp add: int_of_digits_snoc)
  qed
qed

lemma str_of_nat_digits: "list_all is_digit (str_of_nat n)"
proof (induction n rule: str_of_nat.induct)
  case (1 n)
  have digit: "is_digit (char_of (48 + m))" if "m < 10" for m :: nat
  proof -
    from that have "m \<in> {0, 1, 2, 3, 4, 5, 6, 7, 8, 9}" by auto
    then show ?thesis by (auto simp: is_digit_def char_of_eq_iff)
  qed
  show ?case
  proof (cases "n < 10")
    case True
    then show ?thesis by (simp add: digit)
  next
    case False
    with 1 show ?thesis by (subst str_of_nat.simps) (simp add: digit)
  qed
qed

lemma no_next_anchor:
  "\<forall>(text, h) \<in> set (anchors soup). \<not> contains ''next'' (str_lower text) \<Longrightarrow>
   find (\<lambda>(text, href). contains ''next'' (str_lower text)) (find_all_a_href soup) = None"
  by (auto simp: find_None_iff find_all_a_href_def split: option.splits)


text \<open>
  C6, as the code has it. When no anchor's text contains \<^verbatim>\<open>next\<close> in any case, the
  resolver searches the current URL for the leftmost \<^verbatim>\<open>/start/\<close> that a digit follows:
  the URL returned is built from the base and the DOI with the number read there plus 10,
  and there is no next page when the search finds nothing. A current URL that ends with
  \<^verbatim>\<open>/start/20\<close> and in which no \<^verbatim>\<open>/start/\<close> with a digit after it begins earlier
  gives the URL that ends with \<^verbatim>\<open>/start/30\<close>. The search result is the longest run of
  digits at the leftmost match, and the number written into a URL is read back from it.
\<close>

theorem next_page_fallback:
  "((\<forall>(text, h) \<in> set (anchors soup). \<not> contains ''next'' (str_lower text)) \<longrightarrow>
      find_next_page_url doi soup current =
        (case re_search_start current of
           None \<Rightarrow> None
         | Some ds \<Rightarrow> Some (build_url doi (int_of_digits ds + 10)))
      \<and> (re_search_start (pre @ ''/start/'') = None \<longrightarrow>
           find_next_page_url doi soup (pre @ ''/start/20'') = Some (build_url doi 30)))
   \<and> (re_search_start current = Some ds \<longleftrightarrow>
        (\<exists>p q. current = p @ ''/start/'' @ ds @ q \<and> ds \<noteq> [] \<and> list_all is_digit ds
           \<and> (q = [] \<or> \<not> is_digit (hd q)) \<and> re_search_start (p @ ''/start/'') = None))
   \<and> (re_search_start current = None \<longleftrightarrow>
        (\<forall>d. is_digit d \<longrightarrow> \<not> contains (''/start/'' @ [d]) current))
   \<and> build_url doi n = BASE_URL @ ''/data/reaction/doi/'' @ doi @ ''/start/'' @ str_of_nat n
   \<and> list_all is_digit (str_of_nat n) \<and> int_of_digits (str_of_nat n) = n
   \<and> suffix ''/start/30'' (build_url doi 30)"
proof (intro conjI impI)
  assume no: "\<forall>(text, h) \<in> set (anchors soup). \<not> contains ''next'' (str_lower text)"
  show gen: "find_next_page_url doi soup u =
      (case re_search_start u of
         None \<Rightarrow> None
       | Some ds \<Rightarrow> Some (build_url doi (int_of_digits ds + 10)))" for u
    using no_next_anchor [OF no] by (simp add: find_next_page_url_def split: option.splits)
  assume "re_search_start (pre @ ''/start/'') = None"
  then have "re_search_start (pre @ ''/start/'' @ ''20'' @ []) = Some ''20''"
    by (rule re_search_start_append) (simp_all add: is_digit_def)
  then show "find_next_page_url doi soup (pre @ ''/start/20'') = Some (build_url doi 30)"
    by (simp add: gen int_of_digits_def)
next
  show "re_search_start current = Some ds \<longleftrightarrow>
      (\<exists>p q. current = p @ ''/start/'' @ ds @ q \<and> ds \<noteq> [] \<and> list_all is_digit ds
         \<and> (q = [] \<or> \<not> is_digit (hd q)) \<and> re_search_start (p @ ''/start/'') = None)"
    using re_search_start_Some [of current ds] re_search_start_append [of _ ds] by blast
  show "re_search_start current = None \<longleftrightarrow>
      (\<forall>d. is_digit d \<longrightarrow> \<not> contains (''/start/'' @ [d]) current)"
    by (rule re_search_start_None_iff)
  show "build_url doi n = BASE_URL @ ''/data/reaction/doi/'' @ doi @ ''/start/'' @ str_of_nat n"
    by (simp add: build_url_def)
  show "list_all is_digit (str_of_nat n)" by (rule str_of_nat_digits)
  show "int_of_digits (str_of_nat n) = n" by (rule int_of_digits_str_of_nat)
  show "suffix ''/start/30'' (build_url doi 30)"
    by (simp add: build_url_def char_of_eq_iff suffix_def)
qed

lemma str_of_nat_values:
  "str_of_nat 0 = ''0''" "str_of_nat 10 = ''10''" "str_of_nat 15 = ''15''"
  "str_of_nat 20 = ''20''" "str_of_nat 30 = ''30''"
  by (simp_all add: char_of_eq_iff)

text \<open>
  The claim as stated fails on a current URL that ends with \<^verbatim>\<open>/start/20\<close> and has an
  earlier \<^verbatim>\<open>/start/5\<close>, as the URL built for the DOI \<^verbatim>\<open>a/start/5\<close> does: the URL
  returned ends with \<^verbatim>\<open>/start/15\<close>.
\<close>

theorem next_page_fallback_counterexample:
  "suffix ''/start/20'' (build_url ''a/start/5'' 20)
   \<and> find_next_page_url ''a/start/5'' \<lparr>data_attrs = [], anchors = [], tables = []\<rparr>
         (build_url ''a/start/5'' 20)
       = Some ''https://kmt.vander-lingen.nl/data/reaction/doi/a/start/5/start/15''
   \<and> \<not> suffix ''/start/30'' ''https://kmt.vander-lingen.nl/data/reaction/doi/a/start/5/start/15''"
  by (simp add: find_next_page_url_def find_all_a_href_def build_url_def BASE_URL_def
      str_of_nat_values is_digit_def int_of_digits_def suffix_to_prefix del: str_of_nat.simps)

theorem next_page_fallback_witness:
  "\<not> contains ''next'' (str_lower ''Previous'') \<and> \<not> contains ''next'' (str_lower ''Home'')
   \<and> re_search_start (''https://kmt.vander-lingen.nl/data/reaction/doi/10.1021/jacsau.4c01276'' @ ''/start/'') = None
   \<and> find_next_page_url ''10.1021/jacsau.4c01276''
         \<lparr>data_attrs = [], anchors = [(''Previous'', Some ''/p''), (''Home'', None)], tables = []\<rparr>
         ''https://kmt.vander-lingen.nl/data/reaction/doi/10.1021/jacsau.4c01276/start/20''
       = Some ''https://kmt.vander-lingen.nl/data/reaction/doi/10.1021/jacsau.4c01276/start/30''
   \<and> find_next_page_url ''10.1021/jacsau.4c01276''
         \<lparr>data_attrs = [], anchors = [(''Previous'', Some ''/p''), (''Home'', None)], tables = []\<rparr>
         ''https://kmt.vander-lingen.nl/about'' = None"
proof -
  let ?soup = "\<lparr>data_attrs = [], anchors = [(''Previous'', Some ''/p''), (''Home'', None)], tables = []\<rparr>"
  let ?pre = "''https://kmt.vander-lingen.nl/data/reaction/doi/10.1021/jacsau.4c01276''"
  have no: "\<forall>(text, h) \<in> set (anchors ?soup). \<not> contains ''next'' (str_lower text)"
    by (simp add: str_lower_def lower_char_def char_of_eq_iff)
  have none: "re_search_start (?pre @ ''/start/'') = None"
    by (simp add: is_digit_def)
  have about: "re_search_start ''https://kmt.vander-lingen.nl/about'' = None"
    by (simp add: is_digit_def)
  have thirty: "build_url ''10.1021/jacsau.4c01276'' 30 = ?pre @ ''/start/30''"
    by (simp add: build_url_def BASE_URL_def str_of_nat_values del: str_of_nat.simps)
  note fb = next_page_fallback [of ?soup "''10.1021/jacsau.4c01276''"
      "''https://kmt.vander-lingen.nl/about''" ?pre, THEN conjunct1, THEN mp, OF no]
  from fb about have "find_next_page_url ''10.1021/jacsau.4c01276'' ?soup
      ''https://kmt.vander-lingen.nl/about'' = None"
    by simp
  moreover from fb none thirty have "find_next_page_url ''10.1021/jacsau.4c01276'' ?soup
      (?pre @ ''/start/20'') = Some (?pre @ ''/start/30'')"
    by simp
  moreover have "\<not> contains ''next'' (str_lower ''Previous'')
      \<and> \<not> contains ''next'' (str_lower ''Home'')"
    by (simp add: str_lower_def lower_char_def char_of_eq_iff)
  ultimately show ?thesis using none by simp
qed

section \<open>The loop of the crawl\<close>

text \<open>The loop is unfolded one run at a time, by the three lemmas below.\<close>

declare scrape_loop.simps [simp del]

lemma scrape_loop_induct_fixed:
  assumes "\<And>st. (\<And>url st'. current_url st = Some url \<Longrightarrow>
              url \<noteq> [] \<and> int (pages_scraped st) < max_pages \<Longrightarrow>
              crawl_step e doi st url = Continue st' \<Longrightarrow> P st') \<Longrightarrow> P st"
  shows "P st0"
proof -
  have "e' = e \<longrightarrow> doi' = doi \<longrightarrow> mp' = max_pages \<longrightarrow> P st0" for e' doi' mp'
  proof (induction e' doi' mp' st0 rule: scrape_loop.induct)
    case (1 e' doi' mp' st)
    show ?case
    proof (intro impI)
      assume eq: "e' = e" "doi' = doi" "mp' = max_pages"
      show "P st"
      proof (rule assms)
        fix url st'
        assume "current_url st = Some url"
          and "url \<noteq> [] \<and> int (pages_scraped st) < max_pages"
          and "crawl_step e doi st url = Continue st'"
        with 1 eq show "P st'" by blast
      qed
    qed
  qed
  then show ?thesis by blast
qed

lemma scrape_loop_stop:
  "current_url st = None \<or> current_url st = Some [] \<or> \<not> int (pages_scraped st) < max_pages \<Longrightarrow>
   scrape_loop e doi max_pages st = st"
  by (subst scrape_loop.simps) (auto split: option.splits)

lemma scrape_loop_Break:
  "current_url st = Some url \<Longrightarrow> url \<noteq> [] \<Longrightarrow> int (pages_scraped st) < max_pages \<Longrightarrow>
   crawl_step e doi st url = Break st' \<Longrightarrow> scrape_loop e doi max_pages st = st'"
  by (subst scrape_loop.simps) simp

lemma scrape_loop_Continue:
  "current_url st = Some url \<Longrightarrow> url \<noteq> [] \<Longrightarrow> int (pages_scraped st) < max_pages \<Longrightarrow>
   crawl_step e doi st url = Continue st' \<Longrightarrow>
   scrape_loop e doi max_pages st = scrape_loop e doi max_pages st'"
  by (subst scrape_loop.simps) simp

lemma scrape_loop_invariant:
  assumes init: "I st"
    and cont: "\<And>s url s'. I s \<Longrightarrow> current_url s = Some url \<Longrightarrow> url \<noteq> [] \<Longrightarrow>
       int (pages_scraped s) < max_pages \<Longrightarrow> crawl_step e doi s url = Continue s' \<Longrightarrow> I s'"
    and brk: "\<And>s url s'. I s \<Longrightarrow> current_url s = Some url \<Longrightarrow> url \<noteq> [] \<Longrightarrow>
       int (pages_scraped s) < max_pages \<Longrightarrow> crawl_step e doi s url = Break s' \<Longrightarrow> I s'"
  shows "I (scrape_loop e doi max_pages st)"
proof -
  have "I st \<longrightarrow> I (scrape_loop e doi max_pages st)"
  proof (induction st rule: scrape_loop_induct_fixed [where e = e and doi = doi and max_pages = max_pages])
    case (1 st)
    show ?case
    proof
      assume I: "I st"
      show "I (scrape_loop e doi max_pages st)"
      proof (cases "current_url st = None \<or> current_url st = Some []
          \<or> \<not> int (pages_scraped st) < max_pages")
        case True
        then show ?thesis using I by (simp add: scrape_loop_stop)
      next
        case False
        then obtain url where url: "current_url st = Some url" "url \<noteq> []"
          "int (pages_scraped st) < max_pages"
          by auto
        show ?thesis
        proof (cases "crawl_step e doi st url")
          case (Break s')
          with url I show ?thesis by (simp add: scrape_loop_Break brk)
        next
          case (Continue s')
          with url I have "I s'" by (simp add: cont)
          moreover have "I s' \<longrightarrow> I (scrape_loop e doi max_pages s')"
            using url Continue by (intro 1) simp_all
          ultimately show ?thesis using url Continue by (simp add: scrape_loop_Continue)
        qed
      qed
    qed
  qed
  with init show ?thesis by blast
qed

text \<open>What one run of the loop body does to the state.\<close>

lemma crawl_step_Break:
  assumes "crawl_step e doi st url = Break st'"
  shows "st' = st \<and> url \<in> seen_urls st
    \<or> st' = st\<lparr>seen_urls := insert url (seen_urls st), fetch_log := fetch_log st @ [url]\<rparr>
       \<and> url \<notin> seen_urls st
       \<and> (fetch e (pages_scraped st) url = None \<or> fetch e (pages_scraped st) url = Some [])"
  using assms by (auto simp: crawl_step_def Let_def split: if_splits option.splits)

lemma crawl_step_Continue:
  assumes "crawl_step e doi st url = Continue st'"
  shows "\<exists>html. fetch e (pages_scraped st) url = Some html \<and> html \<noteq> [] \<and> url \<notin> seen_urls st
     \<and> st' = \<lparr>current_url = find_next_page_url doi (soup_of e html) url,
             seen_urls = insert url (seen_urls st),
             pages_scraped = Suc (pages_scraped st),
             collected_reactions =
               collect (collected_reactions st) (process_page e (pages_scraped st) html url),
             fetch_log = fetch_log st @ [url],
             process_log =
               process_log st @ [(url, process_page e (pages_scraped st) html url)]\<rparr>"
  using assms by (auto simp: crawl_step_def Let_def split: if_splits option.splits)

section \<open>Collecting and the invariants of the crawl\<close>

lemma find_append:
  "find P (xs @ ys) = (case find P xs of None \<Rightarrow> find P ys | Some x \<Rightarrow> Some x)"
  by (induction xs) auto

lemma collect_prefix: "prefix c (collect c rs)"
proof (induction rs arbitrary: c)
  case Nil
  show ?case by simp
next
  case (Cons r rs)
  let ?c' = "if reaction_smiles r \<notin> set (map reaction_smiles c) then c @ [r] else c"
  have a: "prefix c ?c'" by simp
  have b: "prefix ?c' (collect ?c' rs)" by (rule Cons)
  have "prefix c (collect ?c' rs)" using a b by (rule prefix_order.trans)
  then show ?case by (simp only: collect.simps)
qed

lemma collect_distinct:
  "distinct (map reaction_smiles c) \<Longrightarrow> distinct (map reaction_smiles (collect c rs))"
  by (induction rs arbitrary: c) auto

lemma collect_subset: "set (collect c rs) \<subseteq> set c \<union> set rs"
proof (induction rs arbitrary: c)
  case Nil
  show ?case by simp
next
  case (Cons r rs)
  show ?case using Cons [of "c @ [r]"] Cons [of c] by auto
qed

lemma collect_find:
  "find (\<lambda>r. reaction_smiles r = k) (collect c rs) = find (\<lambda>r. reaction_smiles r = k) (c @ rs)"
proof (induction rs arbitrary: c)
  case Nil
  show ?case by simp
next
  case (Cons r rs)
  show ?case
  proof (cases "reaction_smiles r \<in> set (map reaction_smiles c)")
    case False
    then show ?thesis using Cons [of "c @ [r]"] by simp
  next
    case True
    show ?thesis
    proof (cases "find (\<lambda>r. reaction_smiles r = k) c")
      case None
      then have "k \<notin> set (map reaction_smiles c)" by (auto simp: find_None_iff)
      with True have "reaction_smiles r \<noteq> k" by auto
      with True None show ?thesis using Cons [of c] by (simp add: find_append)
    next
      case (Some x)
      with True show ?thesis using Cons [of c] by (simp add: find_append)
    qed
  qed
qed

lemma scrape_distinct:
  "distinct (map reaction_smiles c) \<Longrightarrow> distinct (map reaction_smiles (scrape e doi c max_pages))"
  unfolding scrape_def scrape_run_def
  by (rule scrape_loop_invariant [where I = "\<lambda>s. distinct (map reaction_smiles (collected_reactions s))"])
    (auto dest!: crawl_step_Continue crawl_step_Break simp: collect_distinct)

lemma scrape_prefix: "prefix c (scrape e doi c max_pages)"
  unfolding scrape_def scrape_run_def
proof (rule scrape_loop_invariant [where I = "\<lambda>s. prefix c (collected_reactions s)"])
  fix s url s'
  assume p: "prefix c (collected_reactions s)" and "crawl_step e doi s url = Continue s'"
  then obtain html where "collected_reactions s'
      = collect (collected_reactions s) (process_page e (pages_scraped s) html url)"
    by (auto dest!: crawl_step_Continue)
  then show "prefix c (collected_reactions s')"
    using prefix_order.trans [OF p collect_prefix] by simp
qed (auto dest!: crawl_step_Break)

lemma scrape_find:
  "find (\<lambda>r. reaction_smiles r = k) (scrape e doi c max_pages)
   = find (\<lambda>r. reaction_smiles r = k)
       (c @ concat (map snd (process_log (scrape_run e doi c max_pages))))"
  unfolding scrape_def scrape_run_def
  by (rule scrape_loop_invariant [where I = "\<lambda>s. find (\<lambda>r. reaction_smiles r = k) (collected_reactions s)
        = find (\<lambda>r. reaction_smiles r = k) (c @ concat (map snd (process_log s)))"])
    (auto dest!: crawl_step_Continue crawl_step_Break simp: collect_find find_append split: option.splits)

lemma trace_inv_Continue:
  assumes inv: "trace_inv max_pages s" and lt: "int (pages_scraped s) < max_pages"
    and step: "crawl_step e doi s url = Continue s'"
  shows "trace_inv max_pages s'"
proof -
  from crawl_step_Continue [OF step] obtain html where new: "url \<notin> seen_urls s"
    and fl: "fetch_log s' = fetch_log s @ [url]"
    and su: "seen_urls s' = insert url (seen_urls s)"
    and ps: "pages_scraped s' = Suc (pages_scraped s)"
    and pl: "process_log s' = process_log s @ [(url, process_page e (pages_scraped s) html url)]"
    by auto
  from inv have d1: "distinct (fetch_log s)" and seen: "seen_urls s = set (fetch_log s)"
    and d2: "distinct (map fst (process_log s))"
    and sub: "set (map fst (process_log s)) \<subseteq> set (fetch_log s)"
    and len: "length (process_log s) = pages_scraped s"
    by (simp_all add: trace_inv_def)
  from new seen have f1: "url \<notin> set (fetch_log s)" by simp
  with sub have f2: "url \<notin> set (map fst (process_log s))" by blast
  have "distinct (fetch_log s')" using d1 f1 by (simp add: fl)
  moreover have "seen_urls s' = set (fetch_log s')" using seen by (simp add: fl su)
  moreover have "distinct (map fst (process_log s'))" using d2 f2 by (simp add: pl)
  moreover have "set (map fst (process_log s')) \<subseteq> set (fetch_log s')"
    using sub by (auto simp: pl fl)
  moreover have "length (process_log s') = pages_scraped s'" using len by (simp add: pl ps)
  moreover have "int (pages_scraped s') \<le> max 0 max_pages" using lt by (simp add: ps)
  ultimately show ?thesis by (simp only: trace_inv_def simp_thms)
qed

lemma trace_inv_Break:
  assumes inv: "trace_inv max_pages s" and step: "crawl_step e doi s url = Break s'"
  shows "trace_inv max_pages s'"
proof -
  from crawl_step_Break [OF step] consider "s' = s"
    | "url \<notin> seen_urls s" "fetch_log s' = fetch_log s @ [url]"
      "seen_urls s' = insert url (seen_urls s)" "pages_scraped s' = pages_scraped s"
      "process_log s' = process_log s"
    by auto
  then show ?thesis
  proof cases
    case 1
    with inv show ?thesis by simp
  next
    case 2
    from inv have d1: "distinct (fetch_log s)" and seen: "seen_urls s = set (fetch_log s)"
      and d2: "distinct (map fst (process_log s))"
      and sub: "set (map fst (process_log s)) \<subseteq> set (fetch_log s)"
      and len: "length (process_log s) = pages_scraped s"
      and le: "int (pages_scraped s) \<le> max 0 max_pages"
      by (simp_all add: trace_inv_def)
    from 2(1) seen have f1: "url \<notin> set (fetch_log s)" by simp
    have "distinct (fetch_log s')" using d1 f1 by (simp add: 2(2))
    moreover have "seen_urls s' = set (fetch_log s')" using seen by (simp add: 2(2,3))
    moreover have "distinct (map fst (process_log s'))" using d2 by (simp add: 2(5))
    moreover have "set (map fst (process_log s')) \<subseteq> set (fetch_log s')"
      using sub by (auto simp: 2(2,5))
    moreover have "length (process_log s') = pages_scraped s'" using len by (simp add: 2(4,5))
    moreover have "int (pages_scraped s') \<le> max 0 max_pages" using le by (simp add: 2(4))
    ultimately show ?thesis by (simp only: trace_inv_def simp_thms)
  qed
qed

lemma scrape_trace: "trace_inv max_pages (scrape_run e doi c max_pages)"
  unfolding scrape_run_def
proof (rule scrape_loop_invariant [where I = "trace_inv max_pages"])
  show "trace_inv max_pages
      \<lparr>current_url = Some (build_url doi 0), seen_urls = {}, pages_scraped = 0,
       collected_reactions = c, fetch_log = [], process_log = []\<rparr>"
    by (simp add: trace_inv_def)
next
  fix s url s'
  assume "trace_inv max_pages s" "int (pages_scraped s) < max_pages"
    "crawl_step e doi s url = Continue s'"
  then show "trace_inv max_pages s'" by (rule trace_inv_Continue)
next
  fix s url s'
  assume "trace_inv max_pages s" "crawl_step e doi s url = Break s'"
  then show "trace_inv max_pages s'" by (rule trace_inv_Break)
qed

lemma reactions_of_sound:
  "r \<in> set (reactions_of url ts cands) \<Longrightarrow>
   product_smiles r \<noteq> [] \<and> reaction_smiles r \<in> set cands
   \<and> parse_smiles_string (reaction_smiles r)
       = Some \<lparr>reactants = reactant_smiles r, reagents = reagent_smiles r,
               products = product_smiles r\<rparr>
   \<and> source_url r = url \<and> scraped_at r = ts"
  by (induction cands) (auto split: option.splits if_splits)

lemma reactions_of_filter:
  "map reaction_smiles (reactions_of url ts cands)
   = filter (\<lambda>s. case parse_smiles_string s of None \<Rightarrow> False | Some p \<Rightarrow> products p \<noteq> []) cands"
  by (induction cands) (auto split: option.splits)

lemma scrape_products:
  "\<forall>r \<in> set c. product_smiles r \<noteq> [] \<Longrightarrow> \<forall>r \<in> set (scrape e doi c max_pages). product_smiles r \<noteq> []"
  unfolding scrape_def scrape_run_def
proof (rule scrape_loop_invariant [where I = "\<lambda>s. \<forall>r \<in> set (collected_reactions s). product_smiles r \<noteq> []"])
  fix s url s'
  assume inv: "\<forall>r \<in> set (collected_reactions s). product_smiles r \<noteq> []"
    and "crawl_step e doi s url = Continue s'"
  then obtain html where s': "collected_reactions s'
      = collect (collected_reactions s) (process_page e (pages_scraped s) html url)"
    by (auto dest!: crawl_step_Continue)
  show "\<forall>r \<in> set (collected_reactions s'). product_smiles r \<noteq> []"
  proof
    fix r
    assume "r \<in> set (collected_reactions s')"
    with s' collect_subset have "r \<in> set (collected_reactions s)
        \<or> r \<in> set (process_page e (pages_scraped s) html url)"
      by fastforce
    with inv show "product_smiles r \<noteq> []"
      by (auto simp: process_page_def dest: reactions_of_sound)
  qed
qed (auto dest!: crawl_step_Break)

lemma crawl_step_empty_as_failure:
  "crawl_step (e\<lparr>fetch := empty_as_failure (fetch e)\<rparr>) doi st url = crawl_step e doi st url"
  by (auto simp: crawl_step_def empty_as_failure_def Let_def process_page_def all_smiles_def
      extract_from_javascript_def split: option.splits)

lemma scrape_loop_empty_as_failure:
  "scrape_loop (e\<lparr>fetch := empty_as_failure (fetch e)\<rparr>) doi max_pages st
   = scrape_loop e doi max_pages st"
proof (induction st rule: scrape_loop_induct_fixed [where e = e and doi = doi and max_pages = max_pages])
  case (1 st)
  show ?case
  proof (cases "current_url st = None \<or> current_url st = Some []
      \<or> \<not> int (pages_scraped st) < max_pages")
    case True
    then show ?thesis by (simp add: scrape_loop_stop)
  next
    case False
    then obtain url where url: "current_url st = Some url" "url \<noteq> []"
      "int (pages_scraped st) < max_pages"
      by auto
    show ?thesis
    proof (cases "crawl_step e doi st url")
      case (Break s')
      with url show ?thesis
        by (simp add: scrape_loop_Break crawl_step_empty_as_failure)
    next
      case (Continue s')
      with url 1 [of url s'] show ?thesis
        by (simp add: scrape_loop_Continue crawl_step_empty_as_failure)
    qed
  qed
qed

lemma filter_key_le_1:
  "distinct (map f xs) \<Longrightarrow> length (filter (\<lambda>x. f x = k) xs) \<le> 1"
proof (induction xs)
  case Nil
  show ?case by simp
next
  case (Cons x xs)
  show ?case
  proof (cases "f x = k")
    case True
    from Cons.prems have "f x \<notin> f ` set xs" by simp
    with True have "\<forall>y \<in> set xs. f y \<noteq> k" by blast
    then have "filter (\<lambda>x. f x = k) xs = []"
      by (simp add: filter_empty_conv)
    with True show ?thesis by simp
  next
    case False
    with Cons show ?thesis by simp
  qed
qed

section \<open>What the crawl guarantees\<close>

text \<open>
  C2. Whatever the pages are, the list that \<^verbatim>\<open>scrape\<close> returns holds at most one
  record for each \<^verbatim>\<open>reaction_smiles\<close>: this holds for a fresh scraper, whose list starts
  empty, and for any scraper whose list had no duplicate before the call. The records held
  before the call stay as they are at the head of the list, and for each
  \<^verbatim>\<open>reaction_smiles\<close> the record stored is the first one with it in the sequence made
  of the records held before and the records returned by \<^verbatim>\<open>_process_page\<close>, page
  after page: first seen wins, and a later duplicate changes nothing.
\<close>

theorem crawl_dedup:
  "(distinct (map reaction_smiles c) \<longrightarrow>
      distinct (map reaction_smiles (scrape e doi c max_pages))
      \<and> length (filter (\<lambda>r. reaction_smiles r = k) (scrape e doi c max_pages)) \<le> 1)
   \<and> distinct (map reaction_smiles (scrape e doi [] max_pages))
   \<and> length (filter (\<lambda>r. reaction_smiles r = k) (scrape e doi [] max_pages)) \<le> 1
   \<and> prefix c (scrape e doi c max_pages)
   \<and> find (\<lambda>r. reaction_smiles r = k) (scrape e doi c max_pages)
       = find (\<lambda>r. reaction_smiles r = k)
           (c @ concat (map snd (process_log (scrape_run e doi c max_pages))))"
proof (intro conjI impI)
  assume d: "distinct (map reaction_smiles c)"
  then show "distinct (map reaction_smiles (scrape e doi c max_pages))"
    by (rule scrape_distinct)
  then show "length (filter (\<lambda>r. reaction_smiles r = k) (scrape e doi c max_pages)) \<le> 1"
    by (rule filter_key_le_1)
next
  show fresh: "distinct (map reaction_smiles (scrape e doi [] max_pages))"
    by (rule scrape_distinct) simp
  then show "length (filter (\<lambda>r. reaction_smiles r = k) (scrape e doi [] max_pages)) \<le> 1"
    by (rule filter_key_le_1)
  show "prefix c (scrape e doi c max_pages)" by (rule scrape_prefix)
  show "find (\<lambda>r. reaction_smiles r = k) (scrape e doi c max_pages)
       = find (\<lambda>r. reaction_smiles r = k)
           (c @ concat (map snd (process_log (scrape_run e doi c max_pages))))"
    by (rule scrape_find)
qed

theorem crawl_dedup_witness:
  "distinct (map reaction_smiles ([] :: reaction_data list))
   \<and> map (\<lambda>(url, rs). (url, map reaction_smiles rs))
        (process_log (scrape_run (two_pages (\<lambda>k url. Some ''p'')) ''d'' [] 5))
       = [(''https://kmt.vander-lingen.nl/data/reaction/doi/d/start/0'', [''A.B>>C'']),
          (''https://kmt.vander-lingen.nl/2'', [''A.B>>C''])]
   \<and> scrape (two_pages (\<lambda>k url. Some ''p'')) ''d'' [] 5
       = [\<lparr>reaction_smiles = ''A.B>>C'', reactant_smiles = [''A'', ''B''], reagent_smiles = [],
           product_smiles = [''C''],
           source_url = ''https://kmt.vander-lingen.nl/data/reaction/doi/d/start/0'',
           scraped_at = ''t0''\<rparr>]
   \<and> distinct (map reaction_smiles (scrape (two_pages (\<lambda>k url. Some ''p'')) ''d'' [] 5))"
proof -
  have d: "distinct (map reaction_smiles ([] :: reaction_data list))" by simp
  have log: "map (\<lambda>(url, rs). (url, map reaction_smiles rs))
        (process_log (scrape_run (two_pages (\<lambda>k url. Some ''p'')) ''d'' [] 5))
       = [(''https://kmt.vander-lingen.nl/data/reaction/doi/d/start/0'', [''A.B>>C'']),
          (''https://kmt.vander-lingen.nl/2'', [''A.B>>C''])]"
    by code_simp
  have run: "scrape (two_pages (\<lambda>k url. Some ''p'')) ''d'' [] 5
       = [\<lparr>reaction_smiles = ''A.B>>C'', reactant_smiles = [''A'', ''B''], reagent_smiles = [],
           product_smiles = [''C''],
           source_url = ''https://kmt.vander-lingen.nl/data/reaction/doi/d/start/0'',
           scraped_at = ''t0''\<rparr>]"
    by code_simp
  from crawl_dedup [of "[]" "two_pages (\<lambda>k url. Some ''p'')" "''d''" 5 "''A.B>>C''"] d
  have "distinct (map reaction_smiles (scrape (two_pages (\<lambda>k url. Some ''p'')) ''d'' [] 5))"
    by blast
  with d log run show ?thesis by blast
qed

text \<open>
  C3. Every record that \<^verbatim>\<open>_process_page\<close> returns has a product: the records
  returned are exactly the candidates that parse with at least one product, in the order
  of iteration, so a candidate that does not parse or parses without product is left out.
  Hence every record that \<^verbatim>\<open>scrape\<close> returns has a product, for a fresh scraper and
  for any scraper whose records all had one before the call.
\<close>

theorem stored_products_nonempty:
  "(\<forall>r \<in> set (process_page e i html url). product_smiles r \<noteq> [])
   \<and> map reaction_smiles (process_page e i html url)
       = filter (\<lambda>s. case parse_smiles_string s of None \<Rightarrow> False | Some p \<Rightarrow> products p \<noteq> [])
           (all_smiles e html)
   \<and> (\<forall>r \<in> set (process_page e i html url).
         parse_smiles_string (reaction_smiles r)
           = Some \<lparr>reactants = reactant_smiles r, reagents = reagent_smiles r,
                   products = product_smiles r\<rparr>)
   \<and> (\<forall>r \<in> set (scrape e doi [] max_pages). product_smiles r \<noteq> [])
   \<and> ((\<forall>r \<in> set c. product_smiles r \<noteq> []) \<longrightarrow>
        (\<forall>r \<in> set (scrape e doi c max_pages). product_smiles r \<noteq> []))"
proof (intro conjI impI)
  show "\<forall>r \<in> set (process_page e i html url). product_smiles r \<noteq> []"
    by (auto simp: process_page_def dest: reactions_of_sound)
  show "map reaction_smiles (process_page e i html url)
       = filter (\<lambda>s. case parse_smiles_string s of None \<Rightarrow> False | Some p \<Rightarrow> products p \<noteq> [])
           (all_smiles e html)"
    by (simp add: process_page_def reactions_of_filter)
  show "\<forall>r \<in> set (process_page e i html url).
         parse_smiles_string (reaction_smiles r)
           = Some \<lparr>reactants = reactant_smiles r, reagents = reagent_smiles r,
                   products = product_smiles r\<rparr>"
    by (auto simp: process_page_def dest: reactions_of_sound)
  show "\<forall>r \<in> set (scrape e doi [] max_pages). product_smiles r \<noteq> []"
    by (rule scrape_products) simp
  show "\<forall>r \<in> set (scrape e doi c max_pages). product_smiles r \<noteq> []"
    if "\<forall>r \<in> set c. product_smiles r \<noteq> []"
    using that by (rule scrape_products)
qed

theorem stored_products_nonempty_witness:
  "all_smiles (two_pages (\<lambda>k url. Some ''p'')) ''p'' = [''A.B>>C'', ''A.B>>'', []]
   \<and> process_page (two_pages (\<lambda>k url. Some ''p'')) 0 ''p'' ''u''
       = [\<lparr>reaction_smiles = ''A.B>>C'', reactant_smiles = [''A'', ''B''], reagent_smiles = [],
           product_smiles = [''C''], source_url = ''u'', scraped_at = ''t0''\<rparr>]
   \<and> map reaction_smiles (scrape (two_pages (\<lambda>k url. Some ''p'')) ''d'' [] 5) = [''A.B>>C'']
   \<and> [] \<notin> set (map product_smiles (scrape (two_pages (\<lambda>k url. Some ''p'')) ''d'' [] 5))"
proof -
  have cands: "all_smiles (two_pages (\<lambda>k url. Some ''p'')) ''p'' = [''A.B>>C'', ''A.B>>'', []]"
    by code_simp
  have page: "process_page (two_pages (\<lambda>k url. Some ''p'')) 0 ''p'' ''u''
       = [\<lparr>reaction_smiles = ''A.B>>C'', reactant_smiles = [''A'', ''B''], reagent_smiles = [],
           product_smiles = [''C''], source_url = ''u'', scraped_at = ''t0''\<rparr>]"
    by code_simp
  have run: "map reaction_smiles (scrape (two_pages (\<lambda>k url. Some ''p'')) ''d'' [] 5) = [''A.B>>C'']"
    by code_simp
  from stored_products_nonempty [of "two_pages (\<lambda>k url. Some ''p'')" 0 "''p''" "''u''" "''d''" 5 "[]"]
  have "\<forall>r \<in> set (scrape (two_pages (\<lambda>k url. Some ''p'')) ''d'' [] 5). product_smiles r \<noteq> []"
    by blast
  then have "[] \<notin> set (map product_smiles (scrape (two_pages (\<lambda>k url. Some ''p'')) ''d'' [] 5))"
    by auto
  with cands page run show ?thesis by blast
qed

text \<open>
  C7. In one call of \<^verbatim>\<open>scrape\<close> no URL is given twice to \<^verbatim>\<open>_fetch_page\<close> and none
  twice to \<^verbatim>\<open>_process_page\<close>; the visited URLs are the fetched ones, and the processed
  ones are among them. When the current URL is a visited one the loop ends at once, with
  the state as it is: nothing is fetched or processed again. The number of pages processed
  is at most \<^verbatim>\<open>max_pages\<close> (none when \<^verbatim>\<open>max_pages\<close> is zero or negative).
\<close>

theorem crawl_no_revisit:
  "distinct (fetch_log (scrape_run e doi c max_pages))
   \<and> distinct (map fst (process_log (scrape_run e doi c max_pages)))
   \<and> seen_urls (scrape_run e doi c max_pages) = set (fetch_log (scrape_run e doi c max_pages))
   \<and> set (map fst (process_log (scrape_run e doi c max_pages)))
       \<subseteq> set (fetch_log (scrape_run e doi c max_pages))
   \<and> length (process_log (scrape_run e doi c max_pages)) \<le> nat max_pages
   \<and> pages_scraped (scrape_run e doi c max_pages)
       = length (process_log (scrape_run e doi c max_pages))
   \<and> (current_url st = Some url \<and> url \<in> seen_urls st \<longrightarrow>
        crawl_step e doi st url = Break st \<and> scrape_loop e doi max_pages st = st)"
proof -
  have inv: "trace_inv max_pages (scrape_run e doi c max_pages)" by (rule scrape_trace)
  have stop: "crawl_step e doi st url = Break st \<and> scrape_loop e doi max_pages st = st"
    if "current_url st = Some url \<and> url \<in> seen_urls st"
  proof
    show step: "crawl_step e doi st url = Break st"
      using that by (simp add: crawl_step_def)
    show "scrape_loop e doi max_pages st = st"
    proof (cases "url \<noteq> [] \<and> int (pages_scraped st) < max_pages")
      case True
      with that step show ?thesis by (simp add: scrape_loop_Break)
    next
      case False
      with that show ?thesis by (auto simp: scrape_loop_stop)
    qed
  qed
  from inv have "int (length (process_log (scrape_run e doi c max_pages))) \<le> max 0 max_pages"
    by (simp add: trace_inv_def)
  then have "length (process_log (scrape_run e doi c max_pages)) \<le> nat max_pages"
    by linarith
  with inv stop show ?thesis by (simp add: trace_inv_def)
qed

theorem crawl_no_revisit_witness:
  "current_url (scrape_run (two_pages (\<lambda>k url. Some ''p'')) ''d'' [] 5)
       = Some ''https://kmt.vander-lingen.nl/2''
   \<and> ''https://kmt.vander-lingen.nl/2''
       \<in> seen_urls (scrape_run (two_pages (\<lambda>k url. Some ''p'')) ''d'' [] 5)
   \<and> fetch_log (scrape_run (two_pages (\<lambda>k url. Some ''p'')) ''d'' [] 5)
       = [''https://kmt.vander-lingen.nl/data/reaction/doi/d/start/0'',
          ''https://kmt.vander-lingen.nl/2'']
   \<and> scrape_loop (two_pages (\<lambda>k url. Some ''p'')) ''d'' 5
         (scrape_run (two_pages (\<lambda>k url. Some ''p'')) ''d'' [] 5)
       = scrape_run (two_pages (\<lambda>k url. Some ''p'')) ''d'' [] 5"
proof -
  let ?r = "scrape_run (two_pages (\<lambda>k url. Some ''p'')) ''d'' [] 5"
  have cur: "current_url ?r = Some ''https://kmt.vander-lingen.nl/2''" by code_simp
  have log: "fetch_log ?r = [''https://kmt.vander-lingen.nl/data/reaction/doi/d/start/0'',
      ''https://kmt.vander-lingen.nl/2'']"
    by code_simp
  from crawl_no_revisit [of "two_pages (\<lambda>k url. Some ''p'')" "''d''" "[]" 5]
  have "seen_urls ?r = set (fetch_log ?r)" by blast
  with log have seen: "''https://kmt.vander-lingen.nl/2'' \<in> seen_urls ?r" by simp
  from crawl_no_revisit [of "two_pages (\<lambda>k url. Some ''p'')" "''d''" "[]" 5 ?r
      "''https://kmt.vander-lingen.nl/2''"] cur seen
  have "scrape_loop (two_pages (\<lambda>k url. Some ''p'')) ''d'' 5 ?r = ?r" by blast
  with cur seen log show ?thesis by blast
qed

text \<open>
  C10. A fetch that answers with an empty page text is a failed fetch for \<^verbatim>\<open>scrape\<close>:
  the whole run is the same when the collaborator fails wherever it answered with the
  empty text. In both cases the loop ends with the URL marked as visited and nothing else
  changed, so the page is not processed and the records collected so far are returned.
\<close>

theorem empty_page_is_failure:
  "scrape_run (e\<lparr>fetch := empty_as_failure (fetch e)\<rparr>) doi c max_pages
     = scrape_run e doi c max_pages
   \<and> scrape (e\<lparr>fetch := empty_as_failure (fetch e)\<rparr>) doi c max_pages
       = scrape e doi c max_pages
   \<and> (current_url st = Some url \<and> url \<noteq> [] \<and> int (pages_scraped st) < max_pages
        \<and> url \<notin> seen_urls st
        \<and> (fetch e (pages_scraped st) url = Some [] \<or> fetch e (pages_scraped st) url = None)
      \<longrightarrow> scrape_loop e doi max_pages st
            = st\<lparr>seen_urls := insert url (seen_urls st), fetch_log := fetch_log st @ [url]\<rparr>)"
proof (intro conjI impI)
  show "scrape_run (e\<lparr>fetch := empty_as_failure (fetch e)\<rparr>) doi c max_pages
     = scrape_run e doi c max_pages"
    by (simp add: scrape_run_def scrape_loop_empty_as_failure)
  then show "scrape (e\<lparr>fetch := empty_as_failure (fetch e)\<rparr>) doi c max_pages
       = scrape e doi c max_pages"
    by (simp add: scrape_def)
next
  assume a: "current_url st = Some url \<and> url \<noteq> [] \<and> int (pages_scraped st) < max_pages
        \<and> url \<notin> seen_urls st
        \<and> (fetch e (pages_scraped st) url = Some [] \<or> fetch e (pages_scraped st) url = None)"
  then have "crawl_step e doi st url
      = Break (st\<lparr>seen_urls := insert url (seen_urls st), fetch_log := fetch_log st @ [url]\<rparr>)"
    by (auto simp: crawl_step_def Let_def)
  with a show "scrape_loop e doi max_pages st
      = st\<lparr>seen_urls := insert url (seen_urls st), fetch_log := fetch_log st @ [url]\<rparr>"
    by (simp add: scrape_loop_Break)
qed

theorem empty_page_is_failure_witness:
  "fetch (two_pages (\<lambda>k url. if k = 0 then Some ''p'' else Some [])) 1
       ''https://kmt.vander-lingen.nl/2'' = Some []
   \<and> scrape_loop (two_pages (\<lambda>k url. if k = 0 then Some ''p'' else Some [])) ''d'' 5
        \<lparr>current_url = Some ''https://kmt.vander-lingen.nl/2'', seen_urls = {''u''},
         pages_scraped = 1, collected_reactions = [], fetch_log = [''u''],
         process_log = [(''u'', [])]\<rparr>
       = \<lparr>current_url = Some ''https://kmt.vander-lingen.nl/2'',
          seen_urls = {''https://kmt.vander-lingen.nl/2'', ''u''},
          pages_scraped = 1, collected_reactions = [],
          fetch_log = [''u'', ''https://kmt.vander-lingen.nl/2''],
          process_log = [(''u'', [])]\<rparr>
   \<and> map fst (process_log
        (scrape_run (two_pages (\<lambda>k url. if k = 0 then Some ''p'' else Some [])) ''d'' [] 5))
       = [''https://kmt.vander-lingen.nl/data/reaction/doi/d/start/0'']
   \<and> map fst (process_log
        (scrape_run (two_pages (\<lambda>k url. if k = 0 then Some ''p'' else None)) ''d'' [] 5))
       = [''https://kmt.vander-lingen.nl/data/reaction/doi/d/start/0'']"
proof -
  let ?e = "two_pages (\<lambda>k url. if k = 0 then Some ''p'' else Some [])"
  let ?st = "\<lparr>current_url = Some ''https://kmt.vander-lingen.nl/2'', seen_urls = {''u''},
         pages_scraped = 1, collected_reactions = [], fetch_log = [''u''],
         process_log = [(''u'', [])]\<rparr>"
  have f: "fetch ?e 1 ''https://kmt.vander-lingen.nl/2'' = Some []"
    by (simp add: two_pages_def)
  have "current_url ?st = Some ''https://kmt.vander-lingen.nl/2''
      \<and> ''https://kmt.vander-lingen.nl/2'' \<noteq> [] \<and> int (pages_scraped ?st) < 5
      \<and> ''https://kmt.vander-lingen.nl/2'' \<notin> seen_urls ?st
      \<and> (fetch ?e (pages_scraped ?st) ''https://kmt.vander-lingen.nl/2'' = Some []
          \<or> fetch ?e (pages_scraped ?st) ''https://kmt.vander-lingen.nl/2'' = None)"
    by (simp add: two_pages_def)
  with empty_page_is_failure [of ?e "''d''" "[]" 5 ?st "''https://kmt.vander-lingen.nl/2''"]
  have loop: "scrape_loop ?e ''d'' 5 ?st
      = ?st\<lparr>seen_urls := insert ''https://kmt.vander-lingen.nl/2'' (seen_urls ?st),
            fetch_log := fetch_log ?st @ [''https://kmt.vander-lingen.nl/2'']\<rparr>"
    by blast
  have log1: "map fst (process_log (scrape_run ?e ''d'' [] 5))
       = [''https://kmt.vander-lingen.nl/data/reaction/doi/d/start/0'']"
    by code_simp
  have log2: "map fst (process_log
        (scrape_run (two_pages (\<lambda>k url. if k = 0 then Some ''p'' else None)) ''d'' [] 5))
       = [''https://kmt.vander-lingen.nl/data/reaction/doi/d/start/0'']"
    by code_simp
  from f loop log1 log2 show ?thesis by simp
qed

end
